theory Spec2Isabelle
  imports Complex_Main
begin

section \<open>Data model of \<open>invertedIndex.py\<close>\<close>

text \<open>
  A \<open>PostingsListNode\<close> object holds a document id and two references, \<open>next\<close> and
  \<open>next_skip\<close>, each either \<open>None\<close> or another node object.  Node objects are kept in
  a store, one per postings list: the list \<open>nodes\<close> that \<open>create_postings_list\<close>
  fills, in creation order.  A reference to a node is its address, the position of the
  node in that list.  The field \<open>nxt\<close> is the attribute \<open>next\<close>.
\<close>

record PostingsListNode =
  doc :: int
  nxt :: "nat option"
  next_skip :: "nat option"

text \<open>
  A \<open>PostingsList\<close> object: the attributes \<open>docs\<close>, \<open>root\<close> and \<open>interval\<close> of the
  class, and the store \<open>nodes\<close> of the node objects that its constructor created.
\<close>

record PostingsList =
  docs :: "int list"
  root :: "nat option"
  interval :: int
  nodes :: "PostingsListNode list"

text \<open>The one exception the code can raise: \<open>range\<close> called with step 0.\<close>

datatype error = ValueError

section \<open>Construction\<close>

text \<open>\<open>PostingsListNode.__init__\<close>: both references start as \<open>None\<close>.\<close>

definition PostingsListNode_init :: "int \<Rightarrow> PostingsListNode" where
  "PostingsListNode_init d = \<lparr>doc = d, nxt = None, next_skip = None\<rparr>"

text \<open>
  One round of the first loop of \<open>create_postings_list\<close>.  The state is the address
  \<open>current\<close> and the list \<open>nodes\<close>; the new node gets the next free address.
\<close>

definition link_step :: "nat \<times> PostingsListNode list \<Rightarrow> int \<Rightarrow> nat \<times> PostingsListNode list" where
  "link_step s doc_id =
     (let current = fst s; ns = snd s; new_node = length ns
      in (new_node, ns[current := (ns ! current)\<lparr>nxt := Some new_node\<rparr>] @ [PostingsListNode_init doc_id]))"

text \<open>
  Python's \<open>range(0, n, step)\<close>: a \<open>ValueError\<close> for step 0, empty for a negative step,
  and \<open>0, step, 2 * step, ...\<close> below \<open>n\<close> otherwise.
\<close>

definition py_range0 :: "nat \<Rightarrow> int \<Rightarrow> error + nat list" where
  "py_range0 n step =
     (if step = 0 then Inl ValueError
      else if step < 0 then Inr []
      else Inr (map (\<lambda>j. j * nat step) [0 ..< (n + nat step - 1) div nat step]))"

text \<open>One round of the second loop: the guarded assignment of \<open>next_skip\<close>.\<close>

definition skip_step :: "int \<Rightarrow> PostingsListNode list \<Rightarrow> nat \<Rightarrow> PostingsListNode list" where
  "skip_step iv ns i =
     (if int i + iv < int (length ns)
      then ns[i := (ns ! i)\<lparr>next_skip := Some (nat (int i + iv))\<rparr>]
      else ns)"

text \<open>
  \<open>create_postings_list\<close>, given the interval of the object and the argument \<open>docs\<close>;
  it yields the new \<open>root\<close> and the store, or the exception of \<open>range\<close>.
\<close>

definition create_postings_list :: "int \<Rightarrow> int list \<Rightarrow> error + (nat option \<times> PostingsListNode list)" where
  "create_postings_list iv ds =
     (if ds = [] then Inr (None, [])
      else
        let ns = snd (foldl link_step (0, [PostingsListNode_init (hd ds)]) (tl ds))
        in case py_range0 (length ns) iv of
             Inl e \<Rightarrow> Inl e
           | Inr positions \<Rightarrow> Inr (Some 0, foldl (skip_step iv) ns positions))"

text \<open>
  \<open>PostingsList.__init__\<close>.  The attribute \<open>docs\<close> is the sorted argument; the chain is
  built from the argument itself, as the call \<open>self.create_postings_list(docs)\<close> passes it.
  The default \<open>docs=None\<close> is the empty list.
\<close>

definition PostingsList_init :: "int list \<Rightarrow> int \<Rightarrow> error + PostingsList" where
  "PostingsList_init ds iv =
     (case create_postings_list iv ds of
        Inl e \<Rightarrow> Inl e
      | Inr (r, ns) \<Rightarrow> Inr \<lparr>docs = sort ds, root = r, interval = iv, nodes = ns\<rparr>)"

section \<open>Merge intersection\<close>

text \<open>
  The inner loop \<open>while p.next_skip and p.next_skip.doc <= bound: p = p.next_skip\<close>.
  It returns the node the cursor rests on when the condition fails; a loop that does
  not end has no value (\<open>None\<close>).
\<close>

partial_function (option) skip_loop :: "PostingsListNode list \<Rightarrow> nat \<Rightarrow> int \<Rightarrow> nat option" where
  [code]: "skip_loop ns p bound =
     (case next_skip (ns ! p) of
        None \<Rightarrow> Some p
      | Some q \<Rightarrow> if doc (ns ! q) \<le> bound then skip_loop ns q bound else Some p)"

text \<open>
  One round of the outer loop of \<open>get_intersecting_documents\<close>, with both cursors
  on nodes \<open>a\<close> and \<open>b\<close>: the new cursors and the new \<open>result\<close>.  The \<open>else\<close> clause
  of a Python \<open>while\<close> runs whenever the loop ends without \<open>break\<close>; the inner loops
  have no \<open>break\<close>, so each is followed by the step along \<open>next\<close>.
\<close>

definition merge_step ::
  "PostingsListNode list \<Rightarrow> PostingsListNode list \<Rightarrow> nat \<Rightarrow> nat \<Rightarrow> int list
     \<Rightarrow> (nat option \<times> nat option \<times> int list) option" where
  "merge_step ns1 ns2 a b result =
     (if doc (ns1 ! a) = doc (ns2 ! b)
      then Some (nxt (ns1 ! a), nxt (ns2 ! b), result @ [doc (ns1 ! a)])
      else if doc (ns1 ! a) < doc (ns2 ! b)
      then Option.bind (skip_loop ns1 a (doc (ns2 ! b))) (\<lambda>a'. Some (nxt (ns1 ! a'), Some b, result))
      else Option.bind (skip_loop ns2 b (doc (ns1 ! a))) (\<lambda>b'. Some (Some a, nxt (ns2 ! b'), result)))"

text \<open>The outer loop \<open>while p1 != None and p2 != None\<close>; it returns \<open>result\<close>.\<close>

partial_function (option) merge_loop ::
  "PostingsListNode list \<Rightarrow> PostingsListNode list \<Rightarrow> nat option \<Rightarrow> nat option \<Rightarrow> int list \<Rightarrow> int list option" where
  [code]: "merge_loop ns1 ns2 p1 p2 result =
     (case p1 of
        None \<Rightarrow> Some result
      | Some a \<Rightarrow>
          (case p2 of
             None \<Rightarrow> Some result
           | Some b \<Rightarrow>
               Option.bind (merge_step ns1 ns2 a b result)
                 (\<lambda>s. merge_loop ns1 ns2 (fst s) (fst (snd s)) (snd (snd s)))))"

text \<open>
  \<open>get_intersecting_documents\<close>.  The last line is \<open>list(set(result))\<close>; Python fixes
  the elements of that list and that none repeats, not their order.  The order is the
  parameter \<open>set_list\<close>, and \<open>set_list_ok\<close> says what Python guarantees of it.
\<close>

definition set_list_ok :: "(int list \<Rightarrow> int list) \<Rightarrow> bool" where
  "set_list_ok set_list \<longleftrightarrow> (\<forall>xs. distinct (set_list xs) \<and> set (set_list xs) = set xs)"

definition get_intersecting_documents ::
  "(int list \<Rightarrow> int list) \<Rightarrow> PostingsList \<Rightarrow> PostingsList \<Rightarrow> int list option" where
  "get_intersecting_documents set_list self other =
     map_option set_list (merge_loop (nodes self) (nodes other) (root self) (root other) [])"

text \<open>
  \<open>int(math.sqrt(n))\<close> for a list length \<open>n\<close>: the integer part of the square root,
  found by searching downwards from \<open>n\<close>.  (The double-precision square root gives
  exactly this integer for every \<open>n\<close> below \<open>2 ^ 52\<close>.)
\<close>

primrec sqrt_below :: "nat \<Rightarrow> nat \<Rightarrow> nat" where
  "sqrt_below n 0 = 0"
| "sqrt_below n (Suc m) = (if Suc m * Suc m \<le> n then Suc m else sqrt_below n m)"

definition int_sqrt :: "nat \<Rightarrow> nat" where
  "int_sqrt n = sqrt_below n n"

text \<open>
  The expression \<open>int(math.sqrt(len(xs))) if len(xs) >= 9 else 3\<close>, which the source
  writes out in \<open>form_intersection_with\<close> and in \<open>query\<close>.
\<close>

definition interval_for :: "nat \<Rightarrow> int" where
  "interval_for n = (if n \<ge> 9 then int (int_sqrt n) else 3)"

text \<open>\<open>form_intersection_with\<close>: the interval comes from the length of \<open>self.docs\<close>.\<close>

definition form_intersection_with ::
  "(int list \<Rightarrow> int list) \<Rightarrow> PostingsList \<Rightarrow> PostingsList \<Rightarrow> (error + PostingsList) option" where
  "form_intersection_with set_list self other =
     map_option (\<lambda>intersecting_docs. PostingsList_init intersecting_docs (interval_for (length (docs self))))
       (get_intersecting_documents set_list self other)"

section \<open>Queries\<close>

text \<open>
  The whitespace characters, which the pattern's whitespace class matches, and the
  characters of its bracketed class: full stop, exclamation mark, question mark,
  backslash (code 0x5C) and hyphen.  A text is a string of characters with codes
  below 256.
\<close>

definition is_space :: "char \<Rightarrow> bool" where
  "is_space c \<longleftrightarrow> of_char c \<in> {9, 10, 11, 12, 13, 28, 29, 30, 31, 32, 133, 160 :: nat}"

definition is_punct :: "char \<Rightarrow> bool" where
  "is_punct c \<longleftrightarrow> c \<in> {CHR ''.'', CHR ''!'', CHR ''?'', CHR 0x5C, CHR ''-''}"

text \<open>
  \<open>re.split\<close> with the pattern of \<open>query\<close>.  The pattern is tried at each position from
  the left, its alternatives in order.  At a whitespace character the first alternative
  (one or more whitespace characters) matches the whole run of whitespace.  Anywhere
  else only the second alternative can match, with no leading whitespace: a run of
  punctuation followed by whitespace, and then the match takes both runs.  The third
  alternative starts with whitespace, where the first has matched already.  \<open>tok\<close> is
  the token read so far.
\<close>

function re_split_from :: "string \<Rightarrow> string \<Rightarrow> string list" where
  "re_split_from tok [] = [tok]"
| "re_split_from tok (c # cs) =
     (if is_space c then tok # re_split_from [] (dropWhile is_space cs)
      else if is_punct c \<and> dropWhile is_punct cs \<noteq> [] \<and> is_space (hd (dropWhile is_punct cs))
      then tok # re_split_from [] (dropWhile is_space (dropWhile is_punct cs))
      else re_split_from (tok @ [c]) cs)"
  by pat_completeness auto
termination
  by (relation "measure (\<lambda>(tok, cs). length cs)")
     (auto simp: less_Suc_eq_le intro: le_trans [OF length_dropWhile_le] length_dropWhile_le)

definition re_split :: "string \<Rightarrow> string list" where
  "re_split text = re_split_from [] text"

text \<open>
  The body of the \<open>for\<close> loop of \<open>query\<close> for one token, on the variable
  \<open>intersection\<close>; then the loop, which stops at an exception; then the loop with the
  \<open>return\<close> statement after it, for a given list of tokens; then \<open>query\<close>.
\<close>

definition query_step ::
  "(int list \<Rightarrow> int list) \<Rightarrow> (string \<rightharpoonup> int list) \<Rightarrow> PostingsList option \<Rightarrow> string \<Rightarrow> (error + PostingsList option) option" where
  "query_step set_list index intersection token =
     (case index token of
        None \<Rightarrow> Some (Inr intersection)
      | Some raw \<Rightarrow>
          if token = [] then Some (Inr intersection)
          else
            (case PostingsList_init raw (interval_for (length raw)) of
               Inl e \<Rightarrow> Some (Inl e)
             | Inr postings_list \<Rightarrow>
                 (case intersection of
                    None \<Rightarrow> Some (Inr (Some postings_list))
                  | Some acc \<Rightarrow>
                      map_option (map_sum id Some) (form_intersection_with set_list acc postings_list))))"

fun query_loop ::
  "(int list \<Rightarrow> int list) \<Rightarrow> (string \<rightharpoonup> int list) \<Rightarrow> PostingsList option \<Rightarrow> string list \<Rightarrow> (error + PostingsList option) option" where
  "query_loop set_list index intersection [] = Some (Inr intersection)"
| "query_loop set_list index intersection (token # tokens) =
     (case query_step set_list index intersection token of
        None \<Rightarrow> None
      | Some (Inl e) \<Rightarrow> Some (Inl e)
      | Some (Inr intersection') \<Rightarrow> query_loop set_list index intersection' tokens)"

definition query_tokens ::
  "(int list \<Rightarrow> int list) \<Rightarrow> (string \<rightharpoonup> int list) \<Rightarrow> string list \<Rightarrow> (error + int list) option" where
  "query_tokens set_list index tokens =
     map_option (map_sum id (\<lambda>intersection. case intersection of None \<Rightarrow> [] | Some pl \<Rightarrow> docs pl))
       (query_loop set_list index None tokens)"

definition query :: "(int list \<Rightarrow> int list) \<Rightarrow> (string \<rightharpoonup> int list) \<Rightarrow> string \<Rightarrow> (error + int list) option" where
  "query set_list index text = query_tokens set_list index (re_split text)"

section \<open>Notions used to state the properties\<close>

text \<open>
  The addresses met from a reference by following \<open>next\<close> until \<open>None\<close>, and the
  document ids of the chain of a postings list.
\<close>

partial_function (option) chain_from :: "PostingsListNode list \<Rightarrow> nat option \<Rightarrow> nat list option" where
  [code]: "chain_from ns p =
     (case p of
        None \<Rightarrow> Some []
      | Some a \<Rightarrow> Option.bind (chain_from ns (nxt (ns ! a))) (\<lambda>as. Some (a # as)))"

definition chain_docs :: "PostingsList \<Rightarrow> int list option" where
  "chain_docs pl = map_option (map (\<lambda>a. doc (nodes pl ! a))) (chain_from (nodes pl) (root pl))"

text \<open>
  The store that the two loops of \<open>create_postings_list\<close> leave behind, written in
  closed form: node \<open>i\<close> holds the \<open>i\<close>-th element of the argument.
\<close>

definition built_nodes :: "int \<Rightarrow> int list \<Rightarrow> PostingsListNode list" where
  "built_nodes iv ds =
     map (\<lambda>i. \<lparr>doc = ds ! i,
               nxt = (if Suc i < length ds then Some (Suc i) else None),
               next_skip = (if 0 < iv \<and> int i mod iv = 0 \<and> int i + iv < int (length ds)
                            then Some (nat (int i + iv)) else None)\<rparr>)
       [0 ..< length ds]"

text \<open>
  A store whose references all lead to a later node of the same store, and a reference
  that is \<open>None\<close> or a node of the store.  \<open>remaining\<close> counts the nodes from a cursor
  to the end of the store.
\<close>

definition forward_links :: "PostingsListNode list \<Rightarrow> bool" where
  "forward_links ns \<longleftrightarrow>
     (\<forall>p < length ns.
        (\<forall>q. nxt (ns ! p) = Some q \<longrightarrow> p < q \<and> q < length ns) \<and>
        (\<forall>q. next_skip (ns ! p) = Some q \<longrightarrow> p < q \<and> q < length ns))"

definition valid_ref :: "PostingsListNode list \<Rightarrow> nat option \<Rightarrow> bool" where
  "valid_ref ns p \<longleftrightarrow> (case p of None \<Rightarrow> True | Some a \<Rightarrow> a < length ns)"

definition remaining :: "PostingsListNode list \<Rightarrow> nat option \<Rightarrow> nat" where
  "remaining ns p = (case p of None \<Rightarrow> 0 | Some a \<Rightarrow> length ns - a)"

text \<open>
  The naive linear merge that the specification compares with: the same two cursors,
  moved along \<open>next\<close> only, and the same final \<open>list(set(result))\<close>.
\<close>

partial_function (option) naive_merge_loop ::
  "PostingsListNode list \<Rightarrow> PostingsListNode list \<Rightarrow> nat option \<Rightarrow> nat option \<Rightarrow> int list \<Rightarrow> int list option" where
  [code]: "naive_merge_loop ns1 ns2 p1 p2 result =
     (case p1 of
        None \<Rightarrow> Some result
      | Some a \<Rightarrow>
          (case p2 of
             None \<Rightarrow> Some result
           | Some b \<Rightarrow>
               if doc (ns1 ! a) = doc (ns2 ! b)
               then naive_merge_loop ns1 ns2 (nxt (ns1 ! a)) (nxt (ns2 ! b)) (result @ [doc (ns1 ! a)])
               else if doc (ns1 ! a) < doc (ns2 ! b)
               then naive_merge_loop ns1 ns2 (nxt (ns1 ! a)) p2 result
               else naive_merge_loop ns1 ns2 p1 (nxt (ns2 ! b)) result))"

definition naive_intersecting_documents ::
  "(int list \<Rightarrow> int list) \<Rightarrow> PostingsList \<Rightarrow> PostingsList \<Rightarrow> int list option" where
  "naive_intersecting_documents set_list self other =
     map_option set_list (naive_merge_loop (nodes self) (nodes other) (root self) (root other) [])"

text \<open>The tokens of a token list that the loop of \<open>query\<close> does not pass over.\<close>

definition contributes :: "(string \<rightharpoonup> int list) \<Rightarrow> string \<Rightarrow> bool" where
  "contributes index token \<longleftrightarrow> index token \<noteq> None \<and> token \<noteq> []"

text \<open>
  The value of the variable \<open>intersection\<close> of \<open>query\<close> is \<open>None\<close> or a postings list
  whose store has forward links only and whose \<open>root\<close> is \<open>None\<close> or a node of it.
\<close>

definition store_ok :: "PostingsList option \<Rightarrow> bool" where
  "store_ok acc \<longleftrightarrow> (case acc of None \<Rightarrow> True
      | Some pl \<Rightarrow> forward_links (nodes pl) \<and> valid_ref (nodes pl) (root pl))"

text \<open>
  Two objects used as examples below: \<open>PostingsList([1, 2, 3, 4])\<close> and
  \<open>PostingsList([4])\<close>, both with the default interval 3.
\<close>

definition list_1234 :: PostingsList where
  "list_1234 =
     \<lparr>docs = [1, 2, 3, 4], root = Some 0, interval = 3,
      nodes = [\<lparr>doc = 1, nxt = Some 1, next_skip = Some 3\<rparr>,
               \<lparr>doc = 2, nxt = Some 2, next_skip = None\<rparr>,
               \<lparr>doc = 3, nxt = Some 3, next_skip = None\<rparr>,
               \<lparr>doc = 4, nxt = None, next_skip = None\<rparr>]\<rparr>"

definition list_4 :: PostingsList where
  "list_4 =
     \<lparr>docs = [4], root = Some 0, interval = 3,
      nodes = [\<lparr>doc = 4, nxt = None, next_skip = None\<rparr>]\<rparr>"

section \<open>The store that the constructor builds\<close>

lemma length_built_nodes [simp]: "length (built_nodes iv ds) = length ds"
  by (simp add: built_nodes_def)

lemma nth_built_nodes:
  "i < length ds \<Longrightarrow> built_nodes iv ds ! i =
     \<lparr>doc = ds ! i,
      nxt = (if Suc i < length ds then Some (Suc i) else None),
      next_skip = (if 0 < iv \<and> int i mod iv = 0 \<and> int i + iv < int (length ds)
                   then Some (nat (int i + iv)) else None)\<rparr>"
  by (simp add: built_nodes_def)

lemma link_step_built:
  assumes "xs \<noteq> []"
  shows "link_step (length xs - Suc 0, built_nodes 0 xs) y = (length xs, built_nodes 0 (xs @ [y]))"
proof -
  have "(built_nodes 0 xs)[length xs - Suc 0 := (built_nodes 0 xs ! (length xs - Suc 0))\<lparr>nxt := Some (length xs)\<rparr>]
          @ [PostingsListNode_init y] = built_nodes 0 (xs @ [y])"
    using assms
    by (intro nth_equalityI)
       (auto simp: nth_built_nodes nth_append nth_list_update PostingsListNode_init_def less_Suc_eq)
  then show ?thesis
    by (simp add: link_step_def Let_def)
qed

lemma foldl_link_step_built:
  "xs \<noteq> [] \<Longrightarrow> foldl link_step (length xs - Suc 0, built_nodes 0 xs) ys
     = (length (xs @ ys) - Suc 0, built_nodes 0 (xs @ ys))"
proof (induction ys arbitrary: xs)
  case Nil
  then show ?case by simp
next
  case (Cons y ys)
  from Cons.IH [of "xs @ [y]"] Cons.prems show ?case
    by (simp add: link_step_built)
qed

lemma first_loop_built:
  assumes "ds \<noteq> []"
  shows "snd (foldl link_step (0, [PostingsListNode_init (hd ds)]) (tl ds)) = built_nodes 0 ds"
proof -
  have "built_nodes 0 [hd ds] = [PostingsListNode_init (hd ds)]"
    by (simp add: built_nodes_def PostingsListNode_init_def)
  with foldl_link_step_built [of "[hd ds]" "tl ds"] assms show ?thesis
    by simp
qed

lemma length_foldl_skip_step [simp]: "length (foldl (skip_step iv) ns ps) = length ns"
  by (induction ps arbitrary: ns) (simp_all add: skip_step_def)

lemma nth_foldl_skip_step:
  "i < length ns \<Longrightarrow>
   foldl (skip_step iv) ns ps ! i =
     (if i \<in> set ps \<and> int i + iv < int (length ns)
      then (ns ! i)\<lparr>next_skip := Some (nat (int i + iv))\<rparr> else ns ! i)"
proof (induction ps arbitrary: ns)
  case Nil
  then show ?case by simp
next
  case (Cons p ps)
  have len: "length (skip_step iv ns p) = length ns"
    by (simp add: skip_step_def)
  have step: "skip_step iv ns p ! i =
      (if i = p \<and> int i + iv < int (length ns)
       then (ns ! i)\<lparr>next_skip := Some (nat (int i + iv))\<rparr> else ns ! i)"
    using Cons.prems by (auto simp: skip_step_def nth_list_update)
  from Cons.IH [of "skip_step iv ns p"] Cons.prems len step show ?case
    by auto
qed

lemma set_py_range0:
  assumes "0 < k"
  shows "py_range0 n k = Inr ps \<Longrightarrow> i < n \<Longrightarrow> i \<in> set ps \<longleftrightarrow> int i mod k = 0"
proof -
  assume r: "py_range0 n k = Inr ps" and i: "i < n"
  define m where "m = nat k"
  have m: "0 < m" "k = int m" using assms by (simp_all add: m_def)
  have ps: "ps = map (\<lambda>j. j * m) [0 ..< (n + m - 1) div m]"
    using r assms by (simp add: py_range0_def m_def)
  have "i \<in> set ps \<longleftrightarrow> m dvd i"
  proof
    assume "i \<in> set ps" then show "m dvd i" by (auto simp: ps)
  next
    assume "m dvd i"
    then obtain j where j: "i = j * m" by (auto simp: dvd_def mult.commute)
    have "j * m < n" using i j by simp
    then have "j * m + m \<le> n + m - 1" using m by simp
    then have "(j + 1) * m \<le> n + m - 1" by (simp add: algebra_simps)
    then have "j + 1 \<le> (n + m - 1) div m"
      using m by (simp add: less_eq_div_iff_mult_less_eq)
    then show "i \<in> set ps" using j by (auto simp: ps)
  qed
  also have "m dvd i \<longleftrightarrow> int i mod k = 0"
    using m by (metis int_dvd_int_iff mod_eq_0_iff_dvd)
  finally show ?thesis .
qed

lemma py_range0_pos: "0 < k \<Longrightarrow> \<exists>ps. py_range0 n k = Inr ps"
  by (simp add: py_range0_def)

lemma second_loop_built:
  assumes "0 < iv" and "py_range0 (length ds) iv = Inr ps"
  shows "foldl (skip_step iv) (built_nodes 0 ds) ps = built_nodes iv ds"
proof (rule nth_equalityI)
  show "length (foldl (skip_step iv) (built_nodes 0 ds) ps) = length (built_nodes iv ds)"
    by simp
next
  fix i assume "i < length (foldl (skip_step iv) (built_nodes 0 ds) ps)"
  then have i: "i < length ds" by simp
  with assms have "i \<in> set ps \<longleftrightarrow> int i mod iv = 0"
    by (simp add: set_py_range0)
  with i assms(1) show "foldl (skip_step iv) (built_nodes 0 ds) ps ! i = built_nodes iv ds ! i"
    by (simp add: nth_foldl_skip_step nth_built_nodes)
qed

lemma built_nodes_no_skip: "iv < 0 \<Longrightarrow> built_nodes iv ds = built_nodes 0 ds"
  by (simp add: built_nodes_def)

lemma create_postings_list_eq:
  "create_postings_list iv ds =
     (if ds \<noteq> [] \<and> iv = 0 then Inl ValueError
      else Inr (if ds = [] then None else Some 0, built_nodes iv ds))"
proof (cases "ds = []")
  case True
  then show ?thesis by (simp add: create_postings_list_def built_nodes_def)
next
  case False
  then have unfold: "create_postings_list iv ds =
      (case py_range0 (length ds) iv of
         Inl e \<Rightarrow> Inl e
       | Inr positions \<Rightarrow> Inr (Some 0, foldl (skip_step iv) (built_nodes 0 ds) positions))"
    by (simp add: create_postings_list_def first_loop_built Let_def)
  consider (zero) "iv = 0" | (neg) "iv < 0" | (pos) "0 < iv" by linarith
  then show ?thesis
  proof cases
    case zero
    with False show ?thesis unfolding unfold by (simp add: py_range0_def)
  next
    case neg
    then have "py_range0 (length ds) iv = Inr []" by (simp add: py_range0_def)
    with neg False show ?thesis by (simp add: unfold built_nodes_no_skip)
  next
    case pos
    then obtain ps where ps: "py_range0 (length ds) iv = Inr ps"
      using py_range0_pos by blast
    from second_loop_built [OF pos ps] pos False show ?thesis
      by (simp add: unfold ps)
  qed
qed

lemma PostingsList_init_eq:
  "PostingsList_init ds iv =
     (if ds \<noteq> [] \<and> iv = 0 then Inl ValueError
      else Inr \<lparr>docs = sort ds, root = (if ds = [] then None else Some 0),
                interval = iv, nodes = built_nodes iv ds\<rparr>)"
  by (simp add: PostingsList_init_def create_postings_list_eq)

lemma PostingsList_init_InrD:
  assumes "PostingsList_init ds iv = Inr pl"
  shows "docs pl = sort ds" and "root pl = (if ds = [] then None else Some 0)"
    and "interval pl = iv" and "nodes pl = built_nodes iv ds"
  using assms by (auto simp: PostingsList_init_eq split: if_splits)

lemma nxt_built_nodes:
  "i < length ds \<Longrightarrow> nxt (built_nodes iv ds ! i) = (if Suc i < length ds then Some (Suc i) else None)"
  by (simp add: nth_built_nodes)

lemma next_skip_built_nodes:
  "i < length ds \<Longrightarrow> next_skip (built_nodes iv ds ! i) =
     (if 0 < iv \<and> int i mod iv = 0 \<and> int i + iv < int (length ds)
      then Some (nat (int i + iv)) else None)"
  by (simp add: nth_built_nodes)

lemma doc_built_nodes: "i < length ds \<Longrightarrow> doc (built_nodes iv ds ! i) = ds ! i"
  by (simp add: nth_built_nodes)

lemma forward_links_built: "forward_links (built_nodes iv ds)"
  unfolding forward_links_def
proof (intro allI impI)
  fix p assume p: "p < length (built_nodes iv ds)"
  have a: "p < q \<and> q < length (built_nodes iv ds)" if "nxt (built_nodes iv ds ! p) = Some q" for q
    using p that by (simp add: nxt_built_nodes split: if_splits)
  have b: "p < q \<and> q < length (built_nodes iv ds)" if "next_skip (built_nodes iv ds ! p) = Some q" for q
  proof -
    from p that have "0 < iv" "int p + iv < int (length ds)" "q = nat (int p + iv)"
      by (simp_all add: next_skip_built_nodes split: if_splits)
    then show ?thesis by simp linarith
  qed
  from a b show "(\<forall>q. nxt (built_nodes iv ds ! p) = Some q \<longrightarrow> p < q \<and> q < length (built_nodes iv ds)) \<and>
        (\<forall>q. next_skip (built_nodes iv ds ! p) = Some q \<longrightarrow> p < q \<and> q < length (built_nodes iv ds))"
    by blast
qed

lemma valid_ref_root_built: "valid_ref (built_nodes iv ds) (if ds = [] then None else Some 0)"
  by (simp add: valid_ref_def)

lemma forward_links_nxtD:
  "forward_links ns \<Longrightarrow> p < length ns \<Longrightarrow> nxt (ns ! p) = Some q \<Longrightarrow> p < q \<and> q < length ns"
  unfolding forward_links_def by blast

lemma forward_links_skipD:
  "forward_links ns \<Longrightarrow> p < length ns \<Longrightarrow> next_skip (ns ! p) = Some q \<Longrightarrow> p < q \<and> q < length ns"
  unfolding forward_links_def by blast

lemma valid_ref_nxt:
  assumes "forward_links ns" "a < length ns"
  shows "valid_ref ns (nxt (ns ! a))"
proof (cases "nxt (ns ! a)")
  case None
  then show ?thesis by (simp add: valid_ref_def)
next
  case (Some q)
  with forward_links_nxtD [OF assms] show ?thesis by (simp add: valid_ref_def)
qed

lemma remaining_nxt:
  assumes "forward_links ns" "a \<le> a'" "a' < length ns"
  shows "remaining ns (nxt (ns ! a')) < remaining ns (Some a)"
proof (cases "nxt (ns ! a')")
  case None
  with assms show ?thesis by (simp add: remaining_def)
next
  case (Some q)
  with forward_links_nxtD [OF assms(1,3)] have "a' < q" "q < length ns" by simp_all
  with Some assms show ?thesis by (simp add: remaining_def)
qed

lemma skip_loop_terminates:
  assumes "forward_links ns"
  shows "p < length ns \<Longrightarrow> \<exists>q. skip_loop ns p bound = Some q \<and> p \<le> q \<and> q < length ns"
proof (induction "length ns - p" arbitrary: p rule: less_induct)
  case less
  show ?case
  proof (cases "next_skip (ns ! p)")
    case None
    with less.prems show ?thesis by (subst skip_loop.simps) simp
  next
    case (Some q)
    with forward_links_skipD [OF assms less.prems] have q: "p < q" "q < length ns"
      by simp_all
    show ?thesis
    proof (cases "doc (ns ! q) \<le> bound")
      case True
      from q have "length ns - q < length ns - p" by simp
      from less.hyps [OF this q(2)] obtain r
        where "skip_loop ns q bound = Some r" "q \<le> r" "r < length ns" by blast
      with Some True q show ?thesis by (subst skip_loop.simps) simp
    next
      case False
      with Some less.prems show ?thesis by (subst skip_loop.simps) simp
    qed
  qed
qed

lemma merge_step_advances:
  assumes "forward_links ns1" "forward_links ns2" "a < length ns1" "b < length ns2"
  shows "\<exists>p1 p2 r. merge_step ns1 ns2 a b result = Some (p1, p2, r)
           \<and> valid_ref ns1 p1 \<and> valid_ref ns2 p2
           \<and> remaining ns1 p1 \<le> remaining ns1 (Some a)
           \<and> remaining ns2 p2 \<le> remaining ns2 (Some b)
           \<and> remaining ns1 p1 + remaining ns2 p2 < remaining ns1 (Some a) + remaining ns2 (Some b)"
proof -
  have vb: "valid_ref ns2 (Some b)" and va: "valid_ref ns1 (Some a)"
    using assms by (simp_all add: valid_ref_def)
  consider (eq) "doc (ns1 ! a) = doc (ns2 ! b)"
    | (lt) "doc (ns1 ! a) < doc (ns2 ! b)"
    | (gt) "doc (ns1 ! a) > doc (ns2 ! b)"
    by linarith
  then show ?thesis
  proof cases
    case eq
    then have st: "merge_step ns1 ns2 a b result = Some (nxt (ns1 ! a), nxt (ns2 ! b), result @ [doc (ns1 ! a)])"
      by (simp add: merge_step_def)
    have "remaining ns1 (nxt (ns1 ! a)) < remaining ns1 (Some a)"
      and "remaining ns2 (nxt (ns2 ! b)) < remaining ns2 (Some b)"
      using assms by (simp_all add: remaining_nxt)
    moreover have "valid_ref ns1 (nxt (ns1 ! a))" "valid_ref ns2 (nxt (ns2 ! b))"
      using assms by (simp_all add: valid_ref_nxt)
    ultimately show ?thesis unfolding st by (intro exI conjI) (rule refl, simp_all)
  next
    case lt
    from skip_loop_terminates [OF assms(1,3)] obtain a'
      where a': "skip_loop ns1 a (doc (ns2 ! b)) = Some a'" "a \<le> a'" "a' < length ns1" by blast
    with lt have st: "merge_step ns1 ns2 a b result = Some (nxt (ns1 ! a'), Some b, result)"
      by (simp add: merge_step_def)
    have "remaining ns1 (nxt (ns1 ! a')) < remaining ns1 (Some a)"
      using assms a' by (simp add: remaining_nxt)
    moreover have "valid_ref ns1 (nxt (ns1 ! a'))"
      using assms a' by (simp add: valid_ref_nxt)
    ultimately show ?thesis unfolding st using vb by (intro exI conjI) (rule refl, simp_all)
  next
    case gt
    from skip_loop_terminates [OF assms(2,4)] obtain b'
      where b': "skip_loop ns2 b (doc (ns1 ! a)) = Some b'" "b \<le> b'" "b' < length ns2" by blast
    with gt have st: "merge_step ns1 ns2 a b result = Some (Some a, nxt (ns2 ! b'), result)"
      by (simp add: merge_step_def)
    have "remaining ns2 (nxt (ns2 ! b')) < remaining ns2 (Some b)"
      using assms b' by (simp add: remaining_nxt)
    moreover have "valid_ref ns2 (nxt (ns2 ! b'))"
      using assms b' by (simp add: valid_ref_nxt)
    ultimately show ?thesis unfolding st using va by (intro exI conjI) (rule refl, simp_all)
  qed
qed

lemma merge_loop_terminates:
  assumes "forward_links ns1" "forward_links ns2"
  shows "valid_ref ns1 p1 \<Longrightarrow> valid_ref ns2 p2 \<Longrightarrow> \<exists>r. merge_loop ns1 ns2 p1 p2 result = Some r"
proof (induction "remaining ns1 p1 + remaining ns2 p2" arbitrary: p1 p2 result rule: less_induct)
  case less
  show ?case
  proof (cases p1)
    case None
    then show ?thesis by (subst merge_loop.simps) simp
  next
    case a: (Some a)
    show ?thesis
    proof (cases p2)
      case None
      with a show ?thesis by (subst merge_loop.simps) simp
    next
      case b: (Some b)
      from less.prems a b have "a < length ns1" "b < length ns2"
        by (simp_all add: valid_ref_def)
      from merge_step_advances [OF assms this, of result] obtain q1 q2 r
        where st: "merge_step ns1 ns2 a b result = Some (q1, q2, r)"
          and v: "valid_ref ns1 q1" "valid_ref ns2 q2"
          and m: "remaining ns1 q1 + remaining ns2 q2 < remaining ns1 (Some a) + remaining ns2 (Some b)"
        by blast
      from less.hyps [OF _ v, of r] m a b obtain r' where "merge_loop ns1 ns2 q1 q2 r = Some r'"
        by auto
      with st a b show ?thesis by (subst merge_loop.simps) simp
    qed
  qed
qed

lemma constructed_store:
  assumes "PostingsList_init ds iv = Inr pl"
  shows "forward_links (nodes pl)" and "valid_ref (nodes pl) (root pl)"
  using PostingsList_init_InrD [OF assms]
  by (simp_all add: forward_links_built valid_ref_root_built del: length_built_nodes)

lemma PostingsList_init_1234: "PostingsList_init [1, 2, 3, 4] 3 = Inr list_1234"
  by code_simp

lemma PostingsList_init_4: "PostingsList_init [4] 3 = Inr list_4"
  by code_simp

section \<open>Termination of the merge\<close>

text \<open>
  Claim C9.  For two postings lists that the constructor has built, from any two lists
  of document ids, \<open>get_intersecting_documents\<close> returns.  Each round of its loop, from
  cursors on any two nodes, ends with cursors that are \<open>None\<close> or nodes again, neither
  cursor further from the end of its chain than before and the two together strictly
  nearer.
\<close>

theorem get_intersecting_documents_terminates:
  assumes "PostingsList_init ds1 iv1 = Inr A" and "PostingsList_init ds2 iv2 = Inr B"
  shows "(\<exists>r. get_intersecting_documents set_list A B = Some r) \<and>
         (\<forall>a b result. a < length (nodes A) \<and> b < length (nodes B) \<longrightarrow>
            (\<exists>p1 p2 r. merge_step (nodes A) (nodes B) a b result = Some (p1, p2, r)
               \<and> valid_ref (nodes A) p1 \<and> valid_ref (nodes B) p2
               \<and> remaining (nodes A) p1 \<le> remaining (nodes A) (Some a)
               \<and> remaining (nodes B) p2 \<le> remaining (nodes B) (Some b)
               \<and> remaining (nodes A) p1 + remaining (nodes B) p2
                   < remaining (nodes A) (Some a) + remaining (nodes B) (Some b)))"
proof (intro conjI allI impI)
  from merge_loop_terminates [OF constructed_store(1) [OF assms(1)] constructed_store(1) [OF assms(2)]
         constructed_store(2) [OF assms(1)] constructed_store(2) [OF assms(2)], of "[]"]
  show "\<exists>r. get_intersecting_documents set_list A B = Some r"
    by (auto simp: get_intersecting_documents_def)
next
  fix a b result assume "a < length (nodes A) \<and> b < length (nodes B)"
  then show "\<exists>p1 p2 r. merge_step (nodes A) (nodes B) a b result = Some (p1, p2, r)
               \<and> valid_ref (nodes A) p1 \<and> valid_ref (nodes B) p2
               \<and> remaining (nodes A) p1 \<le> remaining (nodes A) (Some a)
               \<and> remaining (nodes B) p2 \<le> remaining (nodes B) (Some b)
               \<and> remaining (nodes A) p1 + remaining (nodes B) p2
                   < remaining (nodes A) (Some a) + remaining (nodes B) (Some b)"
    using merge_step_advances [OF constructed_store(1) [OF assms(1)] constructed_store(1) [OF assms(2)]]
    by blast
qed

theorem get_intersecting_documents_terminates_witness:
  "PostingsList_init [1, 2, 3, 4] 3 = Inr list_1234 \<and> PostingsList_init [4] 3 = Inr list_4 \<and>
   (\<exists>r. get_intersecting_documents remdups list_1234 list_4 = Some r)"
  using get_intersecting_documents_terminates [OF PostingsList_init_1234 PostingsList_init_4, of remdups]
    PostingsList_init_1234 PostingsList_init_4
  by blast

lemma merge_step_swap:
  "merge_step ns2 ns1 b a result =
     map_option (\<lambda>s. (fst (snd s), fst s, snd (snd s))) (merge_step ns1 ns2 a b result)"
proof -
  consider (eq) "doc (ns1 ! a) = doc (ns2 ! b)"
    | (lt) "doc (ns1 ! a) < doc (ns2 ! b)"
    | (gt) "doc (ns1 ! a) > doc (ns2 ! b)"
    by linarith
  then show ?thesis
  proof cases
    case eq
    then show ?thesis by (simp add: merge_step_def)
  next
    case lt
    then show ?thesis
      by (cases "skip_loop ns1 a (doc (ns2 ! b))") (simp_all add: merge_step_def)
  next
    case gt
    then show ?thesis
      by (cases "skip_loop ns2 b (doc (ns1 ! a))") (simp_all add: merge_step_def)
  qed
qed

lemma merge_loop_swap:
  assumes "forward_links ns1" "forward_links ns2"
  shows "valid_ref ns1 p1 \<Longrightarrow> valid_ref ns2 p2 \<Longrightarrow>
         merge_loop ns2 ns1 p2 p1 result = merge_loop ns1 ns2 p1 p2 result"
proof (induction "remaining ns1 p1 + remaining ns2 p2" arbitrary: p1 p2 result rule: less_induct)
  case less
  show ?case
  proof (cases p1)
    case None
    then show ?thesis
      by (subst merge_loop.simps, subst (2) merge_loop.simps) (simp split: option.splits)
  next
    case a: (Some a)
    show ?thesis
    proof (cases p2)
      case None
      with a show ?thesis
        by (subst merge_loop.simps, subst (2) merge_loop.simps) simp
    next
      case b: (Some b)
      from less.prems a b have "a < length ns1" "b < length ns2"
        by (simp_all add: valid_ref_def)
      from merge_step_advances [OF assms this, of result] obtain q1 q2 r
        where st: "merge_step ns1 ns2 a b result = Some (q1, q2, r)"
          and v: "valid_ref ns1 q1" "valid_ref ns2 q2"
          and m: "remaining ns1 q1 + remaining ns2 q2 < remaining ns1 (Some a) + remaining ns2 (Some b)"
        by blast
      have st': "merge_step ns2 ns1 b a result = Some (q2, q1, r)"
        by (simp add: merge_step_swap [of ns2 ns1 b a result] st)
      from m a b have "remaining ns1 q1 + remaining ns2 q2 < remaining ns1 p1 + remaining ns2 p2"
        by simp
      from less.hyps [OF this v] have ih: "merge_loop ns2 ns1 q2 q1 r = merge_loop ns1 ns2 q1 q2 r" .
      have "merge_loop ns2 ns1 p2 p1 result = merge_loop ns2 ns1 q2 q1 r"
        using a b st' by (subst merge_loop.simps) simp
      also note ih
      also have "merge_loop ns1 ns2 q1 q2 r = merge_loop ns1 ns2 p1 p2 result"
        using a b st by (subst (2) merge_loop.simps) simp
      finally show ?thesis .
    qed
  qed
qed

section \<open>Commutativity of the merge\<close>

text \<open>
  Claim C8.  For two postings lists \<open>A\<close> and \<open>B\<close> that the constructor has built,
  \<open>get_intersecting_documents(A, B)\<close> and \<open>get_intersecting_documents(B, A)\<close> are equal.
\<close>

theorem get_intersecting_documents_commutes:
  assumes "PostingsList_init ds1 iv1 = Inr A" and "PostingsList_init ds2 iv2 = Inr B"
  shows "get_intersecting_documents set_list A B = get_intersecting_documents set_list B A"
  using merge_loop_swap [OF constructed_store(1) [OF assms(1)] constructed_store(1) [OF assms(2)]
         constructed_store(2) [OF assms(1)] constructed_store(2) [OF assms(2)], of "[]"]
  by (simp add: get_intersecting_documents_def)

theorem get_intersecting_documents_commutes_witness:
  "PostingsList_init [1, 2, 3, 4] 3 = Inr list_1234 \<and> PostingsList_init [4] 3 = Inr list_4 \<and>
   get_intersecting_documents remdups list_1234 list_4 = get_intersecting_documents remdups list_4 list_1234"
  using get_intersecting_documents_commutes [OF PostingsList_init_1234 PostingsList_init_4, of remdups]
    PostingsList_init_1234 PostingsList_init_4
  by blast

lemma chain_from_built:
  "i \<le> length ds \<Longrightarrow>
   chain_from (built_nodes iv ds) (if i < length ds then Some i else None) = Some [i ..< length ds]"
proof (induction "length ds - i" arbitrary: i rule: less_induct)
  case less
  show ?case
  proof (cases "i < length ds")
    case False
    with less.prems show ?thesis by (subst chain_from.simps) simp
  next
    case True
    then have "length ds - Suc i < length ds - i" "Suc i \<le> length ds" by simp_all
    from less.hyps [OF this]
    have "chain_from (built_nodes iv ds) (if Suc i < length ds then Some (Suc i) else None)
            = Some [Suc i ..< length ds]" .
    with True show ?thesis
      by (subst chain_from.simps) (simp add: nxt_built_nodes upt_conv_Cons)
  qed
qed

lemma chain_from_root_built:
  "chain_from (built_nodes iv ds) (if ds = [] then None else Some 0) = Some [0 ..< length ds]"
  using chain_from_built [of 0 ds iv] by (cases "ds = []") simp_all

lemma chain_docs_constructed:
  assumes "PostingsList_init ds iv = Inr pl"
  shows "chain_docs pl = Some ds"
proof -
  have "map (\<lambda>a. doc (built_nodes iv ds ! a)) [0 ..< length ds] = ds"
    by (rule nth_equalityI) (simp_all add: doc_built_nodes)
  with PostingsList_init_InrD [OF assms] show ?thesis
    by (simp add: chain_docs_def chain_from_root_built)
qed

section \<open>Placement of the skip links\<close>

text \<open>
  Claim C4.  For a postings list built from \<open>n\<close> document ids with a positive
  interval \<open>k\<close>, the chain from \<open>root\<close> along \<open>next\<close> has \<open>n\<close> nodes, and the node at
  position \<open>i\<close> of the chain has a skip link exactly when \<open>i mod k = 0\<close> and
  \<open>i + k < n\<close>; the link then leads to the node at position \<open>i + k\<close> of the chain.
  No other node has a skip link.
\<close>

theorem skip_links_placement:
  assumes "0 < k"
  shows "\<exists>pl as. PostingsList_init ds k = Inr pl
           \<and> chain_from (nodes pl) (root pl) = Some as
           \<and> length as = length ds
           \<and> (\<forall>i < length ds.
                 next_skip (nodes pl ! (as ! i)) =
                   (if int i mod k = 0 \<and> int i + k < int (length ds)
                    then Some (as ! nat (int i + k)) else None))"
proof -
  let ?pl = "\<lparr>docs = sort ds, root = (if ds = [] then None else Some 0),
              interval = k, nodes = built_nodes k ds\<rparr>"
  have init: "PostingsList_init ds k = Inr ?pl"
    using assms by (simp add: PostingsList_init_eq)
  have chain: "chain_from (nodes ?pl) (root ?pl) = Some [0 ..< length ds]"
    by (simp add: chain_from_root_built)
  have skip: "next_skip (nodes ?pl ! ([0 ..< length ds] ! i)) =
                   (if int i mod k = 0 \<and> int i + k < int (length ds)
                    then Some ([0 ..< length ds] ! nat (int i + k)) else None)"
    if "i < length ds" for i
  proof -
    have "nat (int i + k) < length ds" if "int i + k < int (length ds)"
      using that assms by linarith
    with that assms \<open>i < length ds\<close> show ?thesis
      by (simp add: next_skip_built_nodes)
  qed
  from init chain skip show ?thesis
    by (intro exI [of _ ?pl] exI [of _ "[0 ..< length ds]"]) simp
qed

lemma chain_from_1234: "chain_from (nodes list_1234) (root list_1234) = Some [0, 1, 2, 3]"
  by code_simp

theorem skip_links_placement_witness:
  "(0::int) < 3 \<and> PostingsList_init [1, 2, 3, 4] 3 = Inr list_1234 \<and>
   chain_from (nodes list_1234) (root list_1234) = Some [0, 1, 2, 3] \<and>
   next_skip (nodes list_1234 ! 0) = Some 3 \<and>
   next_skip (nodes list_1234 ! 1) = None \<and>
   next_skip (nodes list_1234 ! 3) = None"
proof -
  from skip_links_placement [of 3 "[1, 2, 3, 4]"] obtain pl as
    where pl: "PostingsList_init [1, 2, 3, 4] 3 = Inr pl"
      and as: "chain_from (nodes pl) (root pl) = Some as"
      and sk: "\<forall>i < length [1, 2, 3, 4 :: int].
                 next_skip (nodes pl ! (as ! i)) =
                   (if int i mod 3 = 0 \<and> int i + 3 < int (length [1, 2, 3, 4 :: int])
                    then Some (as ! nat (int i + 3)) else None)"
    by auto
  from pl have [simp]: "pl = list_1234" by (simp add: PostingsList_init_1234)
  from as have [simp]: "as = [0, 1, 2, 3]" by (simp add: chain_from_1234)
  from sk [rule_format, of 0] have "next_skip (nodes list_1234 ! 0) = Some 3" by simp
  moreover from sk [rule_format, of 1] have "next_skip (nodes list_1234 ! 1) = None" by simp
  moreover from sk [rule_format, of 3] have "next_skip (nodes list_1234 ! 3) = None" by simp
  ultimately show ?thesis by (simp add: PostingsList_init_1234 chain_from_1234)
qed

lemma sqrt_below_le: "sqrt_below n m \<le> m"
  by (induction m) auto

lemma sqrt_below_square: "sqrt_below n m * sqrt_below n m \<le> n"
  by (induction m) auto

lemma sqrt_below_greatest: "k \<le> m \<Longrightarrow> k * k \<le> n \<Longrightarrow> k \<le> sqrt_below n m"
proof (induction m)
  case 0
  then show ?case by simp
next
  case (Suc m)
  show ?case
  proof (cases "Suc m * Suc m \<le> n")
    case True
    with Suc.prems show ?thesis by simp
  next
    case False
    with Suc.prems have "k \<noteq> Suc m" by auto
    with Suc.prems have "k \<le> m" by simp
    with Suc.IH Suc.prems False show ?thesis by simp
  qed
qed

lemma int_sqrt_bounds: "int_sqrt n * int_sqrt n \<le> n" "n < Suc (int_sqrt n) * Suc (int_sqrt n)"
proof -
  show "int_sqrt n * int_sqrt n \<le> n"
    by (simp add: int_sqrt_def sqrt_below_square)
  show "n < Suc (int_sqrt n) * Suc (int_sqrt n)"
  proof (rule ccontr)
    assume "\<not> n < Suc (int_sqrt n) * Suc (int_sqrt n)"
    then have sq: "Suc (int_sqrt n) * Suc (int_sqrt n) \<le> n" by simp
    have "Suc (int_sqrt n) \<le> Suc (int_sqrt n) * Suc (int_sqrt n)" by simp
    with sq have "Suc (int_sqrt n) \<le> n" by linarith
    from sqrt_below_greatest [OF this sq] show False by (simp add: int_sqrt_def)
  qed
qed

lemma int_sqrt_floor: "int (int_sqrt n) = \<lfloor>sqrt (real n)\<rfloor>"
proof -
  let ?r = "int_sqrt n"
  have "(real ?r)\<^sup>2 \<le> real n"
    using int_sqrt_bounds(1) [of n] by (metis of_nat_le_iff of_nat_mult power2_eq_square)
  then have lo: "real ?r \<le> sqrt (real n)" by (rule real_le_rsqrt)
  have "real n < (real (Suc ?r))\<^sup>2"
    using int_sqrt_bounds(2) [of n] by (metis of_nat_less_iff of_nat_mult power2_eq_square)
  then have hi: "sqrt (real n) < real (Suc ?r)"
    by (intro real_less_lsqrt) simp_all
  have "\<lfloor>sqrt (real n)\<rfloor> = int ?r"
    by (rule floor_unique) (use lo hi in simp_all)
  then show ?thesis by simp
qed

lemma int_sqrt_ge_3: "9 \<le> n \<Longrightarrow> 3 \<le> int_sqrt n"
  unfolding int_sqrt_def by (rule sqrt_below_greatest) simp_all

lemma interval_for_pos: "0 < interval_for n"
  using int_sqrt_ge_3 [of n] by (auto simp: interval_for_def)

lemma interval_for_floor:
  "interval_for n = (if 9 \<le> n then \<lfloor>sqrt (real n)\<rfloor> else 3)"
  by (simp add: interval_for_def int_sqrt_floor)

lemma PostingsList_init_interval_for:
  "PostingsList_init ds (interval_for n) =
     Inr \<lparr>docs = sort ds, root = (if ds = [] then None else Some 0),
          interval = interval_for n, nodes = built_nodes (interval_for n) ds\<rparr>"
  using interval_for_pos [of n] by (simp add: PostingsList_init_eq)

lemma form_intersection_with_eq:
  assumes "merge_loop (nodes self) (nodes other) (root self) (root other) [] = Some r"
  shows "form_intersection_with set_list self other =
           Some (PostingsList_init (set_list r) (interval_for (length (docs self))))"
  using assms by (simp add: form_intersection_with_def get_intersecting_documents_def)

section \<open>The interval of an intersection\<close>

text \<open>
  Claim C7.  For two postings lists \<open>self\<close> and \<open>other\<close> that the constructor has built,
  \<open>form_intersection_with\<close> returns a postings list whose interval is the integer part
  of the square root of \<open>n\<close> if \<open>n\<close> is at least 9, and 3 otherwise, where \<open>n\<close> is the
  length of \<open>self.docs\<close>.
\<close>

theorem form_intersection_with_interval:
  assumes "PostingsList_init ds1 iv1 = Inr self" and "PostingsList_init ds2 iv2 = Inr other"
  shows "\<exists>pl. form_intersection_with set_list self other = Some (Inr pl) \<and>
              interval pl = (if 9 \<le> length (docs self)
                             then \<lfloor>sqrt (real (length (docs self)))\<rfloor> else 3)"
proof -
  from merge_loop_terminates [OF constructed_store(1) [OF assms(1)] constructed_store(1) [OF assms(2)]
         constructed_store(2) [OF assms(1)] constructed_store(2) [OF assms(2)], of "[]"]
  obtain r where "merge_loop (nodes self) (nodes other) (root self) (root other) [] = Some r"
    by blast
  from form_intersection_with_eq [OF this, of set_list]
  have "form_intersection_with set_list self other =
          Some (Inr \<lparr>docs = sort (set_list r), root = (if set_list r = [] then None else Some 0),
                      interval = interval_for (length (docs self)),
                      nodes = built_nodes (interval_for (length (docs self))) (set_list r)\<rparr>)"
    by (simp only: PostingsList_init_interval_for)
  moreover have "interval_for (length (docs self)) =
      (if 9 \<le> length (docs self) then \<lfloor>sqrt (real (length (docs self)))\<rfloor> else 3)"
    by (rule interval_for_floor)
  ultimately show ?thesis by simp
qed

theorem form_intersection_with_interval_witness:
  "PostingsList_init [1, 2, 3, 4] 3 = Inr list_1234 \<and> PostingsList_init [4] 3 = Inr list_4 \<and>
   (\<exists>pl. form_intersection_with remdups list_1234 list_4 = Some (Inr pl) \<and> interval pl = 3)"
proof -
  have "length (docs list_1234) = 4" by (simp add: list_1234_def)
  with form_intersection_with_interval [OF PostingsList_init_1234 PostingsList_init_4, of remdups]
  show ?thesis by (simp add: PostingsList_init_1234 PostingsList_init_4)
qed

section \<open>The loop of \<open>query\<close>\<close>

lemma query_step_skipped:
  "\<not> contributes index token \<Longrightarrow> query_step set_list index intersection token = Some (Inr intersection)"
  by (auto simp: contributes_def query_step_def split: option.splits)

lemma query_loop_filter:
  "query_loop set_list index intersection (filter (contributes index) tokens)
     = query_loop set_list index intersection tokens"
  by (induction tokens arbitrary: intersection)
     (simp_all add: query_step_skipped split: option.splits sum.splits)

lemma query_tokens_filter:
  "query_tokens set_list index (filter (contributes index) tokens) = query_tokens set_list index tokens"
  by (simp add: query_tokens_def query_loop_filter)

lemma query_step_first:
  assumes "index token = Some raw" "token \<noteq> []"
  shows "query_step set_list index None token =
           Some (Inr (Some \<lparr>docs = sort raw, root = (if raw = [] then None else Some 0),
                              interval = interval_for (length raw),
                              nodes = built_nodes (interval_for (length raw)) raw\<rparr>))"
  using assms by (simp add: query_step_def PostingsList_init_interval_for)

lemma query_step_next:
  assumes "index token = Some raw" "token \<noteq> []"
    and "merge_loop (nodes acc) (built_nodes (interval_for (length raw)) raw)
           (root acc) (if raw = [] then None else Some 0) [] = Some r"
  shows "query_step set_list index (Some acc) token =
           Some (Inr (Some \<lparr>docs = sort (set_list r), root = (if set_list r = [] then None else Some 0),
                              interval = interval_for (length (docs acc)),
                              nodes = built_nodes (interval_for (length (docs acc))) (set_list r)\<rparr>))"
proof -
  let ?pl = "\<lparr>docs = sort raw, root = (if raw = [] then None else Some 0),
              interval = interval_for (length raw),
              nodes = built_nodes (interval_for (length raw)) raw\<rparr>"
  have "merge_loop (nodes acc) (nodes ?pl) (root acc) (root ?pl) [] = Some r"
    using assms(3) by simp
  from form_intersection_with_eq [OF this, of set_list]
  have "form_intersection_with set_list acc ?pl =
          Some (Inr \<lparr>docs = sort (set_list r), root = (if set_list r = [] then None else Some 0),
                      interval = interval_for (length (docs acc)),
                      nodes = built_nodes (interval_for (length (docs acc))) (set_list r)\<rparr>)"
    by (simp only: PostingsList_init_interval_for)
  with assms(1,2) show ?thesis
    by (simp add: query_step_def PostingsList_init_interval_for)
qed

lemma query_step_total:
  assumes "store_ok acc"
  shows "\<exists>acc'. query_step set_list index acc token = Some (Inr acc') \<and> store_ok acc'"
proof (cases "contributes index token")
  case False
  with assms show ?thesis by (simp add: query_step_skipped)
next
  case True
  then obtain raw where raw: "index token = Some raw" "token \<noteq> []"
    by (auto simp: contributes_def)
  show ?thesis
  proof (cases acc)
    case None
    with raw show ?thesis
      by (simp add: query_step_first store_ok_def forward_links_built valid_ref_root_built
            del: length_built_nodes)
  next
    case (Some pl)
    with assms have pl: "forward_links (nodes pl)" "valid_ref (nodes pl) (root pl)"
      by (simp_all add: store_ok_def)
    from merge_loop_terminates [OF pl(1) forward_links_built pl(2) valid_ref_root_built, of _ raw "[]"]
    obtain r where "merge_loop (nodes pl) (built_nodes (interval_for (length raw)) raw)
           (root pl) (if raw = [] then None else Some 0) [] = Some r"
      by blast
    from query_step_next [where index = index and token = token and set_list = set_list, OF raw this]
      Some show ?thesis
      by (simp add: store_ok_def forward_links_built valid_ref_root_built del: length_built_nodes)
  qed
qed

lemma query_loop_total:
  "store_ok acc \<Longrightarrow> \<exists>acc'. query_loop set_list index acc tokens = Some (Inr acc')"
proof (induction tokens arbitrary: acc)
  case Nil
  then show ?case by simp
next
  case (Cons token tokens)
  from query_step_total [OF Cons.prems, of set_list index token] obtain acc1
    where "query_step set_list index acc token = Some (Inr acc1)" "store_ok acc1" by blast
  with Cons.IH [of acc1] show ?case by simp
qed

lemma query_tokens_total: "\<exists>r. query_tokens set_list index tokens = Some (Inr r)"
proof -
  have "store_ok None" by (simp add: store_ok_def)
  from query_loop_total [OF this, of set_list index tokens] show ?thesis
    by (auto simp: query_tokens_def)
qed

lemma query_tokens_single:
  assumes "index token = Some raw" "token \<noteq> []"
  shows "query_tokens set_list index [token] = Some (Inr (sort raw))"
  using assms by (simp add: query_tokens_def query_step_first)

lemma query_tokens_pair:
  assumes "index t1 = Some raw1" "t1 \<noteq> []" "index t2 = Some raw2" "t2 \<noteq> []"
    and "merge_loop (built_nodes (interval_for (length raw1)) raw1)
           (built_nodes (interval_for (length raw2)) raw2)
           (if raw1 = [] then None else Some 0) (if raw2 = [] then None else Some 0) [] = Some r"
  shows "query_tokens set_list index [t1, t2] = Some (Inr (sort (set_list r)))"
proof -
  let ?pl = "\<lparr>docs = sort raw1, root = (if raw1 = [] then None else Some 0),
              interval = interval_for (length raw1),
              nodes = built_nodes (interval_for (length raw1)) raw1\<rparr>"
  have "merge_loop (nodes ?pl) (built_nodes (interval_for (length raw2)) raw2)
           (root ?pl) (if raw2 = [] then None else Some 0) [] = Some r"
    using assms(5) by simp
  from query_step_next [where index = index and token = t2 and set_list = set_list, OF assms(3,4) this]
    assms(1,2) show ?thesis
    by (simp add: query_tokens_def query_step_first)
qed

lemma sort_set_list:
  assumes "set_list_ok set_list"
  shows "sort (set_list xs) = sorted_list_of_set (set xs)"
proof -
  from assms have "distinct (set_list xs)" "set (set_list xs) = set xs"
    by (simp_all add: set_list_ok_def)
  then show ?thesis
    by (metis distinct_remdups_id sorted_list_of_set_sort_remdups)
qed

lemma set_list_ok_remdups: "set_list_ok remdups"
  by (simp add: set_list_ok_def)

lemma re_split_cat_dog: "re_split ''cat dog'' = [''cat'', ''dog'']"
  by code_simp

lemma re_split_a_b: "re_split ''a b'' = [''a'', ''b'']"
  by code_simp

lemma re_split_x_y: "re_split ''x y'' = [''x'', ''y'']"
  by code_simp

lemma re_split_empty: "re_split [] = [[]]"
  by (simp add: re_split_def)

section \<open>Queries\<close>

text \<open>
  Claim C5.  For every index and every query text, the tokens that are not keys of the
  index or are empty are left out of the fold: \<open>query\<close> gives what the loop gives on
  the remaining tokens alone.  \<open>query\<close> always returns a list and raises no exception.
  In particular, with \<open>"cat"\<close> mapped to \<open>[1, 2, 3]\<close> and no entry for \<open>"dog"\<close>,
  \<open>query("cat dog")\<close> returns \<open>[1, 2, 3]\<close>.
\<close>

theorem query_skips_unknown_tokens:
  "query set_list index text
     = query_tokens set_list index (filter (contributes index) (re_split text)) \<and>
   (\<exists>r. query set_list index text = Some (Inr r)) \<and>
   (index ''cat'' = Some [1, 2, 3] \<and> index ''dog'' = None
      \<longrightarrow> query set_list index ''cat dog'' = Some (Inr [1, 2, 3]))"
proof (intro conjI impI)
  show "query set_list index text
     = query_tokens set_list index (filter (contributes index) (re_split text))"
    by (simp add: query_def query_tokens_filter)
  show "\<exists>r. query set_list index text = Some (Inr r)"
    by (simp add: query_def query_tokens_total)
next
  assume a: "index ''cat'' = Some [1, 2, 3] \<and> index ''dog'' = None"
  then have "filter (contributes index) [''cat'', ''dog''] = [''cat'']"
    by (simp add: contributes_def)
  then have "query set_list index ''cat dog'' = query_tokens set_list index [''cat'']"
    using query_tokens_filter [of set_list index "[''cat'', ''dog'']"]
    by (simp add: query_def re_split_cat_dog)
  also have "\<dots> = Some (Inr (sort [1, 2, 3]))"
    using a by (intro query_tokens_single) simp_all
  finally show "query set_list index ''cat dog'' = Some (Inr [1, 2, 3])" by simp
qed

theorem query_skips_unknown_tokens_witness:
  "[''cat'' \<mapsto> [1, 2, 3]] ''cat'' = Some [1, 2, 3 :: int] \<and>
   [''cat'' \<mapsto> [1, 2, 3 :: int]] ''dog'' = None \<and>
   query remdups [''cat'' \<mapsto> [1, 2, 3]] ''cat dog'' = Some (Inr [1, 2, 3])"
proof -
  have h: "[''cat'' \<mapsto> [1, 2, 3]] ''cat'' = Some [1, 2, 3 :: int] \<and>
           [''cat'' \<mapsto> [1, 2, 3 :: int]] ''dog'' = None"
    by simp
  from query_skips_unknown_tokens [of remdups "[''cat'' \<mapsto> [1, 2, 3]]" "''cat dog''"]
  have "[''cat'' \<mapsto> [1, 2, 3]] ''cat'' = Some [1, 2, 3 :: int] \<and>
        [''cat'' \<mapsto> [1, 2, 3 :: int]] ''dog'' = None
        \<longrightarrow> query remdups [''cat'' \<mapsto> [1, 2, 3]] ''cat dog'' = Some (Inr [1, 2, 3])"
    by blast
  with h show ?thesis by blast
qed

text \<open>
  The merge of the scenario of claim C6, run on the two stores that \<open>query\<close> builds.
\<close>

lemma merge_loop_scenario:
  "merge_loop (built_nodes (interval_for (length [1, 2, 3, 4, 5, 6, 7, 8, 9 :: int])) [1, 2, 3, 4, 5, 6, 7, 8, 9])
     (built_nodes (interval_for (length [2, 4, 6, 8, 10 :: int])) [2, 4, 6, 8, 10])
     (if [1, 2, 3, 4, 5, 6, 7, 8, 9 :: int] = [] then None else Some 0)
     (if [2, 4, 6, 8, 10 :: int] = [] then None else Some 0) [] = Some [2, 4, 6, 8]"
  by code_simp

lemma sorted_list_2468: "sorted_list_of_set (set [2, 4, 6, 8 :: int]) = [2, 4, 6, 8]"
  by code_simp

text \<open>
  Claim C6.  For the index \<open>{"a": [1,2,3,4,5,6,7,8,9], "b": [2,4,6,8,10]}\<close>,
  \<open>query("a b")\<close> returns exactly \<open>[2, 4, 6, 8]\<close>, whatever the order in which
  \<open>list(set(result))\<close> lists its elements.
\<close>

theorem query_scenario:
  assumes "set_list_ok set_list"
  shows "query set_list [''a'' \<mapsto> [1, 2, 3, 4, 5, 6, 7, 8, 9], ''b'' \<mapsto> [2, 4, 6, 8, 10]] ''a b''
           = Some (Inr [2, 4, 6, 8])"
proof -
  let ?index = "[''a'' \<mapsto> [1, 2, 3, 4, 5, 6, 7, 8, 9], ''b'' \<mapsto> [2, 4, 6, 8, 10 :: int]]"
  have a: "?index ''a'' = Some [1, 2, 3, 4, 5, 6, 7, 8, 9]" and b: "?index ''b'' = Some [2, 4, 6, 8, 10]"
    by simp_all
  have "query_tokens set_list ?index [''a'', ''b''] = Some (Inr (sort (set_list [2, 4, 6, 8])))"
    by (rule query_tokens_pair [OF a _ b _ merge_loop_scenario]) simp_all
  also have "sort (set_list [2, 4, 6, 8]) = [2, 4, 6, 8]"
    by (simp only: sort_set_list [OF assms] sorted_list_2468)
  finally show ?thesis by (simp only: query_def re_split_a_b)
qed

theorem query_scenario_witness:
  "set_list_ok remdups \<and>
   query remdups [''a'' \<mapsto> [1, 2, 3, 4, 5, 6, 7, 8, 9], ''b'' \<mapsto> [2, 4, 6, 8, 10]] ''a b''
     = Some (Inr [2, 4, 6, 8])"
  using query_scenario [OF set_list_ok_remdups] set_list_ok_remdups by simp

text \<open>
  Claim C10 says that a query text yielding exactly one token present in the index
  returns the sorted raw list of that token.  It fails for the empty token: the empty
  text splits into the one token \<open>""\<close>, and with \<open>""\<close> a key of the index, mapped to
  \<open>[1]\<close>, the guard \<open>not token\<close> passes over it and \<open>query\<close> returns \<open>[]\<close>.
\<close>

theorem single_token_query_counterexample:
  "re_split [] = [[]] \<and> [[] \<mapsto> [1 :: int]] [] = Some [1] \<and>
   query remdups [[] \<mapsto> [1]] [] = Some (Inr []) \<and> sort [1 :: int] \<noteq> []"
  by (simp add: re_split_empty query_def query_tokens_def query_step_def)

text \<open>
  Claim C10, amended.  If exactly one token of the query text is a non-empty key of
  the index (counting each occurrence), \<open>query\<close> returns the ascending sort of the raw
  list of that token, duplicates retained.
\<close>

theorem single_token_query:
  assumes "filter (contributes index) (re_split text) = [token]" and "index token = Some raw"
  shows "query set_list index text = Some (Inr (sort raw))"
proof -
  from assms(1) have "token \<in> set (filter (contributes index) (re_split text))" by simp
  then have "token \<noteq> []" by (simp add: contributes_def)
  from query_tokens_single [where index = index and token = token and set_list = set_list,
         OF assms(2) this] assms(1) show ?thesis
    using query_tokens_filter [of set_list index "re_split text"]
    by (simp add: query_def)
qed

theorem single_token_query_witness:
  "filter (contributes [''x'' \<mapsto> [5, 3, 5 :: int]]) (re_split ''x y'') = [''x''] \<and>
   [''x'' \<mapsto> [5, 3, 5 :: int]] ''x'' = Some [5, 3, 5] \<and>
   query remdups [''x'' \<mapsto> [5, 3, 5]] ''x y'' = Some (Inr [3, 5, 5])"
proof -
  have f: "filter (contributes [''x'' \<mapsto> [5, 3, 5 :: int]]) (re_split ''x y'') = [''x'']"
    by (simp add: re_split_x_y contributes_def)
  have i: "[''x'' \<mapsto> [5, 3, 5 :: int]] ''x'' = Some [5, 3, 5]" by simp
  have s: "sort [5, 3, 5 :: int] = [3, 5, 5]" by simp
  have "query remdups [''x'' \<mapsto> [5, 3, 5]] ''x y'' = Some (Inr (sort [5, 3, 5]))"
    by (rule single_token_query [OF f i])
  then have "query remdups [''x'' \<mapsto> [5, 3, 5]] ''x y'' = Some (Inr [3, 5, 5])"
    by (simp only: s)
  with f i show ?thesis by blast
qed

section \<open>Where the code departs from its contract\<close>

text \<open>
  The merge of \<open>PostingsList([1, 2, 3, 4])\<close> with \<open>PostingsList([4])\<close>.  The first list
  has a skip link from its first node to its last.  With cursors on 1 and on 4 the
  inner loop follows that link to the node of 4, and the \<open>else\<close> clause then steps
  past it to \<open>None\<close>: the loop ends with nothing recorded.  A merge along \<open>next\<close> only
  records 4.
\<close>

lemma merge_loop_1234_4:
  "merge_loop (nodes list_1234) (nodes list_4) (root list_1234) (root list_4) [] = Some []"
  by code_simp

lemma naive_merge_loop_1234_4:
  "naive_merge_loop (nodes list_1234) (nodes list_4) (root list_1234) (root list_4) [] = Some [4]"
  by code_simp

text \<open>
  Claim C1 says that \<open>get_intersecting_documents\<close> returns the ascending, deduplicated
  intersection of the two lists of document ids.  The code at \<open>[1, 2, 3, 4]\<close> and
  \<open>[4]\<close>, both built by the constructor with the default interval: document 4 is in
  both lists, and the result is \<open>list(set([]))\<close>, the empty list.
\<close>

theorem intersection_misses_common_document:
  "PostingsList_init [1, 2, 3, 4] 3 = Inr list_1234 \<and> PostingsList_init [4] 3 = Inr list_4 \<and>
   4 \<in> set [1, 2, 3, 4 :: int] \<inter> set [4] \<and>
   get_intersecting_documents set_list list_1234 list_4 = Some (set_list [])"
  by (simp add: PostingsList_init_1234 PostingsList_init_4 get_intersecting_documents_def
        merge_loop_1234_4)

text \<open>
  Claim C2 says that \<open>docs\<close> is the ascending sort of the input and that the chain
  visits the values of \<open>docs\<close> in that order.  The code at the input \<open>[2, 1]\<close>: \<open>docs\<close>
  is \<open>[1, 2]\<close>, and the chain, built from the unsorted argument, visits 2 and then 1.
\<close>

theorem chain_keeps_input_order:
  "\<exists>pl. PostingsList_init [2, 1] 3 = Inr pl \<and> docs pl = [1, 2] \<and> chain_docs pl = Some [2, 1]"
proof -
  obtain pl where pl: "PostingsList_init [2, 1] 3 = Inr pl"
    by (simp add: PostingsList_init_eq)
  from PostingsList_init_InrD(1) [OF pl] chain_docs_constructed [OF pl] pl show ?thesis
    by simp
qed

lemma merge_loop_1234_4_no_skips:
  "merge_loop (built_nodes 4 [1, 2, 3, 4]) (nodes list_4) (Some 0) (root list_4) [] = Some [4]"
  by code_simp

text \<open>
  Claim C3 says that \<open>get_intersecting_documents\<close> returns what a naive linear merge
  along \<open>next\<close> links returns.  The code at \<open>[1, 2, 3, 4]\<close> and \<open>[4]\<close>: the merge of the
  code returns \<open>list(set([]))\<close>, the naive merge \<open>list(set([4]))\<close>; and the merge of the
  code returns \<open>list(set([4]))\<close> too when the first list is built with interval 4 and so
  has no skip link.
\<close>

theorem skip_merge_differs_from_naive_merge:
  "PostingsList_init [1, 2, 3, 4] 3 = Inr list_1234 \<and> PostingsList_init [4] 3 = Inr list_4 \<and>
   get_intersecting_documents set_list list_1234 list_4 = Some (set_list []) \<and>
   naive_intersecting_documents set_list list_1234 list_4 = Some (set_list [4]) \<and>
   (\<exists>A. PostingsList_init [1, 2, 3, 4] 4 = Inr A \<and>
        get_intersecting_documents set_list A list_4 = Some (set_list [4]))"
proof -
  let ?A = "\<lparr>docs = sort [1, 2, 3, 4], root = Some 0, interval = 4,
             nodes = built_nodes 4 [1, 2, 3, 4]\<rparr>"
  have "PostingsList_init [1, 2, 3, 4] 4 = Inr ?A"
    by (simp add: PostingsList_init_eq)
  moreover have "get_intersecting_documents set_list ?A list_4 = Some (set_list [4])"
    by (simp add: get_intersecting_documents_def merge_loop_1234_4_no_skips)
  ultimately have "\<exists>A. PostingsList_init [1, 2, 3, 4] 4 = Inr A \<and>
        get_intersecting_documents set_list A list_4 = Some (set_list [4])"
    by blast
  then show ?thesis
    by (simp add: PostingsList_init_1234 PostingsList_init_4 get_intersecting_documents_def
          naive_intersecting_documents_def merge_loop_1234_4 naive_merge_loop_1234_4)
qed

end
